theory Spec2Isabelle
  imports Complex_Main "HOL-Library.Word"
begin

unbundle bit_operations_syntax

section \<open>Python values\<close>

text \<open>
  The exceptions the program can meet. A function that may raise returns
  \<open>pyerr + 'a\<close>, with \<open>Inl\<close> for the exception.
\<close>

datatype pyerr = OverflowError | FloatingPointError | ZeroDivisionError | ValueError

type_synonym byte = "8 word"

subsection \<open>Double-precision floats\<close>

text \<open>
  A finite Python float is the rational number it denotes. The operations whose result
  IEEE-754 fixes (a literal, \<open>int / int\<close>, \<open>*\<close>, \<open>-\<close>, \<open>/\<close> on floats) are the
  exact operation followed by \<open>double_round\<close>, rounding to the nearest double with
  ties to the even significand. Subnormals are kept (the exponent stops at \<open>-1022\<close>);
  the exponent is not bounded above, so a result beyond the largest double is not turned
  into \<open>inf\<close>: the quantities rounded below are quotients of list lengths and of
  64-bit integers, far from that range.
\<close>

function bit_length :: "int \<Rightarrow> nat" where
  "bit_length n = (if n \<le> 0 then 0 else Suc (bit_length (n div 2)))"
  by pat_completeness auto
termination
  by (relation "measure nat") auto

declare bit_length.simps [simp del]

definition round_half_even :: "rat \<Rightarrow> int" where
  "round_half_even r =
     (let f = \<lfloor>r\<rfloor>; d = r - of_int f
      in if d < 1 / 2 then f else if 1 / 2 < d then f + 1 else if even f then f else f + 1)"

definition ilog2 :: "rat \<Rightarrow> int" where
  \<comment> \<open>for \<open>0 < x\<close>: the exponent \<open>e\<close> with \<open>2 ^ e \<le> x < 2 ^ (e + 1)\<close>\<close>
  "ilog2 x =
     (let (p, q) = quotient_of x;
          d = int (bit_length p) - int (bit_length q)
      in if 2 powi d \<le> x then d else d - 1)"

definition double_round :: "rat \<Rightarrow> rat" where
  "double_round x =
     (if x = 0 then 0
      else let e = max (ilog2 \<bar>x\<bar>) (- 1022); u = 2 powi (e - 52)
           in of_int (round_half_even (x / u)) * u)"

definition float_of_int :: "int \<Rightarrow> rat" where
  "float_of_int n = double_round (of_int n)"

definition float_mul :: "rat \<Rightarrow> rat \<Rightarrow> rat" where
  "float_mul x y = double_round (x * y)"

definition float_sub :: "rat \<Rightarrow> rat \<Rightarrow> rat" where
  "float_sub x y = double_round (x - y)"

definition float_div :: "rat \<Rightarrow> rat \<Rightarrow> rat" where
  \<comment> \<open>for a divisor that is not zero\<close>
  "float_div x y = double_round (x / y)"

definition int_truediv :: "int \<Rightarrow> int \<Rightarrow> pyerr + rat" where
  \<comment> \<open>Python's \<open>a / b\<close> on two ints: the correctly rounded quotient\<close>
  "int_truediv a b =
     (if b = 0 then Inl ZeroDivisionError else Inr (double_round (of_int a / of_int b)))"

section \<open>The libraries the program calls\<close>

text \<open>
  \<open>hashlib\<close> and \<open>numpy\<close> are not part of the repository: their functions are
  parameters. A digest has a fixed width, so it is a word of that width; \<open>digest\<close>
  lists its bytes, most significant first, as \<open>.digest()\<close> does.

  A numpy ufunc returns a value or raises \<open>FloatingPointError\<close> (\<open>None\<close>); numpy raises
  it only when its error state has been set to do so, and otherwise always returns.
  \<open>np_corrcoef xs ys\<close> is the entry \<open>[0,1]\<close> of \<open>np.corrcoef(xs, ys)\<close>, which is
  \<open>nan\<close> when a variance is zero.
\<close>

datatype npfloat = Finite rat | NaN

record pylibs =
  sha256 :: "byte list \<Rightarrow> 256 word"
  sha512 :: "byte list \<Rightarrow> 512 word"
  np_sin :: "complex \<Rightarrow> complex option"
  np_cos :: "complex \<Rightarrow> complex option"
  np_exp :: "real \<Rightarrow> real option"
  np_corrcoef :: "int list \<Rightarrow> int list \<Rightarrow> npfloat"

definition digest :: "'a::len word \<Rightarrow> byte list" where
  "digest w = map (\<lambda>i. ucast (drop_bit (LENGTH('a) - 8 * Suc i) w)) [0..<LENGTH('a) div 8]"

definition encode :: "string \<Rightarrow> byte list" where
  \<comment> \<open>a password is held as the bytes of its UTF-8 encoding, one \<open>char\<close> each\<close>
  "encode s = map of_char s"

section \<open>Parameter derivation\<close>

definition from_bytes_big :: "byte list \<Rightarrow> int" where
  "from_bytes_big bs = foldl (\<lambda>acc b. acc * 256 + uint b) 0 bs"

definition bytes_to_complex :: "byte list \<Rightarrow> complex" where
  "bytes_to_complex byte_list =
     (let int_val = from_bytes_big byte_list;
          normalized = double_round (of_int int_val / of_int (2 ^ 64 - 1));
          real = float_sub (float_mul normalized 4) 2;
          imag = float_sub (float_mul (double_round (of_int (int_val AND 0xFFFF) / of_int (2 ^ 16 - 1))) 4) 2
      in Complex (of_rat real) (of_rat imag))"

definition generate_parameters :: "pylibs \<Rightarrow> string \<Rightarrow> complex \<times> complex \<times> complex" where
  "generate_parameters libs password =
     (let h256 = digest (sha256 libs (encode password));
          h512 = digest (sha512 libs (encode password));
          alpha = bytes_to_complex (take 8 h256);
          beta = bytes_to_complex (take (24 - 16) (drop 16 h512));
          gamma = bytes_to_complex (drop 24 h256)
      in (alpha, beta, gamma))"

section \<open>One step of the map\<close>

text \<open>
  The state of the recurrence is a complex number. Its arithmetic is taken exact here:
  the results of \<open>hypot\<close>, of numpy's complex operations and of \<open>sin\<close>, \<open>cos\<close>
  and \<open>exp\<close> are not fixed by IEEE-754, so their rounding cannot be written down,
  and nothing proved below about the generator depends on the values the recurrence
  takes.
\<close>

definition py_mod :: "real \<Rightarrow> real \<Rightarrow> real" where
  \<comment> \<open>Python's \<open>x % y\<close> on floats, for a divisor that is not zero\<close>
  "py_mod x y = x - of_int \<lfloor>x / y\<rfloor> * y"

definition clamp_mag :: "complex \<Rightarrow> real \<Rightarrow> pyerr + complex" where
  \<comment> \<open>\<open>if abs(z) > max_mag: z = z / abs(z) * max_mag\<close>, which the source writes out for
      the argument and again for the result; dividing a Python complex by zero raises\<close>
  "clamp_mag z max_mag =
     (if cmod z > max_mag
      then (if cmod z = 0 then Inl ZeroDivisionError
            else Inr (z / of_real (cmod z) * of_real max_mag))
      else Inr z)"

definition fractal_terms :: "pylibs \<Rightarrow> complex \<Rightarrow> complex \<Rightarrow> complex \<Rightarrow> complex \<Rightarrow> pyerr + complex" where
  \<comment> \<open>the body of the \<open>try\<close> block\<close>
  "fractal_terms libs z alpha beta gamma =
     (let z_safe = Complex (py_mod (Re z) (2 * pi)) (py_mod (Im z) (2 * pi))
      in case np_sin libs (z_safe + alpha) of
           None \<Rightarrow> Inl FloatingPointError
         | Some term1 \<Rightarrow>
             (case np_cos libs (0.5 * z_safe) of
                None \<Rightarrow> Inl FloatingPointError
              | Some c \<Rightarrow>
                  (case np_exp libs (- cmod z_safe) of
                     None \<Rightarrow> Inl FloatingPointError
                   | Some e \<Rightarrow>
                       (let term2 = beta * c;
                            term3 = gamma * z_safe * of_real e
                        in Inr (term1 + term2 + term3)))))"

definition except_fp :: "pyerr + complex \<Rightarrow> pyerr + complex" where
  \<comment> \<open>\<open>except (OverflowError, FloatingPointError): result = complex(0, 0)\<close>\<close>
  "except_fp body =
     (case body of
        Inl OverflowError \<Rightarrow> Inr (Complex 0 0)
      | Inl FloatingPointError \<Rightarrow> Inr (Complex 0 0)
      | Inl e \<Rightarrow> Inl e
      | Inr r \<Rightarrow> Inr r)"

definition fractal_function ::
    "pylibs \<Rightarrow> complex \<Rightarrow> complex \<Rightarrow> complex \<Rightarrow> complex \<Rightarrow> real \<Rightarrow> pyerr + complex" where
  "fractal_function libs z alpha beta gamma max_mag =
     (case clamp_mag z max_mag of
        Inl e \<Rightarrow> Inl e
      | Inr z1 \<Rightarrow>
          (case except_fp (fractal_terms libs z1 alpha beta gamma) of
             Inl e \<Rightarrow> Inl e
           | Inr result \<Rightarrow> clamp_mag result max_mag))"

section \<open>Keystream generation\<close>

text \<open>
  What the generator does besides returning the keystream: it prints, and it reads the
  clock. The world holds what has been printed and the readings the clock will give.
\<close>

datatype line = Generating int | Generated nat int real

record world =
  clock :: "nat \<Rightarrow> real"
  ticks :: nat
  stdout :: "line list"

definition time_time :: "world \<Rightarrow> real \<times> world" where
  "time_time w = (clock w (ticks w), w\<lparr>ticks := Suc (ticks w)\<rparr>)"

definition print :: "line \<Rightarrow> world \<Rightarrow> world" where
  "print l w = w\<lparr>stdout := stdout w @ [l]\<rparr>"

definition py_int :: "real \<Rightarrow> int" where
  \<comment> \<open>\<open>int(x)\<close> truncates towards zero\<close>
  "py_int x = (if 0 \<le> x then \<lfloor>x\<rfloor> else \<lceil>x\<rceil>)"

definition byte_of :: "complex \<Rightarrow> int" where
  \<comment> \<open>the byte taken from the state (five assignments of the loop body)\<close>
  "byte_of z =
     (let re_frac = \<bar>Re z\<bar> - of_int (py_int \<bar>Re z\<bar>);
          im_frac = \<bar>Im z\<bar> - of_int (py_int \<bar>Im z\<bar>);
          re_int = py_int (re_frac * 2 ^ 20) AND 0xFFFFFF;
          im_int = py_int (im_frac * 2 ^ 20) AND 0xFFFFFF
      in (re_int XOR im_int) AND 0xFF)"

fun keystream_loop ::
    "pylibs \<Rightarrow> complex \<times> complex \<times> complex \<Rightarrow> real \<Rightarrow> int \<Rightarrow> nat list \<Rightarrow>
     complex \<Rightarrow> int list \<Rightarrow> world \<Rightarrow> (pyerr + int list) \<times> world" where
  "keystream_loop libs prm start_time len [] z keystream w = (Inr keystream, w)"
| "keystream_loop libs prm start_time len (i # rest) z keystream w =
     (let w1 = (if i mod 5000 = 0
                then (let (t, w') = time_time w
                      in print (Generated i len (t - start_time)) w')
                else w);
          (alpha, beta, gamma) = prm
      in case fractal_function libs z alpha beta gamma 100 of
           Inl e \<Rightarrow> (Inl e, w1)
         | Inr z' \<Rightarrow>
             keystream_loop libs prm start_time len rest z' (keystream @ [byte_of z']) w1)"

definition generate_keystream ::
    "pylibs \<Rightarrow> world \<Rightarrow> string \<Rightarrow> int \<Rightarrow> complex \<Rightarrow> (pyerr + int list) \<times> world" where
  "generate_keystream libs w password len seed =
     (let prm = generate_parameters libs password;
          w1 = print (Generating len) w;
          (start_time, w2) = time_time w1
      in keystream_loop libs prm start_time len [0..<nat len] seed [] w2)"

section \<open>The randomness tests\<close>

function bin_digits :: "int \<Rightarrow> int list" where
  \<comment> \<open>the digits of \<open>bin(n)[2:]\<close> for \<open>0 \<le> n\<close>\<close>
  "bin_digits n = (if n < 2 then [n] else bin_digits (n div 2) @ [n mod 2])"
  by pat_completeness auto
termination
  by (relation "measure nat") auto

declare bin_digits.simps [simp del]

definition zfill :: "nat \<Rightarrow> int list \<Rightarrow> int list" where
  "zfill width ds = replicate (width - length ds) 0 @ ds"

definition byte_bits :: "int \<Rightarrow> pyerr + int list" where
  \<comment> \<open>\<open>[int(b) for b in bin(byte)[2:].zfill(8)]\<close>; for a negative \<open>byte\<close> the text is
      \<open>b...\<close> and \<open>int('b')\<close> raises\<close>
  "byte_bits byte = (if byte < 0 then Inl ValueError else Inr (zfill 8 (bin_digits byte)))"

fun expand_bits :: "int list \<Rightarrow> int list \<Rightarrow> pyerr + int list" where
  "expand_bits bits [] = Inr bits"
| "expand_bits bits (byte # rest) =
     (case byte_bits byte of
        Inl e \<Rightarrow> Inl e
      | Inr ds \<Rightarrow> expand_bits (bits @ ds) rest)"

definition count_runs :: "int list \<Rightarrow> int" where
  "count_runs bits =
     fold (\<lambda>i runs. if bits ! i \<noteq> bits ! (i - 1) then runs + 1 else runs)
       [1..<length bits] 1"

definition abs_below :: "npfloat \<Rightarrow> rat \<Rightarrow> bool" where
  \<comment> \<open>\<open>abs(x) < c\<close>; every comparison with \<open>nan\<close> is false\<close>
  "abs_below x c = (case x of NaN \<Rightarrow> False | Finite r \<Rightarrow> \<bar>r\<bar> < c)"

record report =
  frequency_test :: bool
  runs_test :: bool
  autocorrelation :: bool

definition nist_randomness_tests :: "pylibs \<Rightarrow> int list \<Rightarrow> pyerr + report" where
  "nist_randomness_tests libs keystream =
     (case expand_bits [] keystream of
        Inl e \<Rightarrow> Inl e
      | Inr bits \<Rightarrow>
          (let ones = sum_list bits;
               n = int (length bits)
           in case int_truediv ones n of
                Inl e \<Rightarrow> Inl e
              | Inr ratio \<Rightarrow>
                  (let freq_test_passed = (double_round (486 / 1000) < ratio \<and> ratio < double_round (514 / 1000));
                       runs = count_runs bits;
                       runs_test_passed =
                         (float_div (float_mul (double_round (9 / 10)) (float_of_int n)) 2 < of_int runs \<and>
                          of_int runs < float_div (float_mul (double_round (11 / 10)) (float_of_int n)) 2);
                       autocorr = (if length bits > 1 then np_corrcoef libs (butlast bits) (tl bits)
                                   else Finite 0)
                   in Inr \<lparr>frequency_test = freq_test_passed,
                            runs_test = runs_test_passed,
                            autocorrelation = abs_below autocorr (double_round (2 / 100))\<rparr>)))"

section \<open>Notions the properties are stated with\<close>

definition py_slice :: "nat \<Rightarrow> nat \<Rightarrow> 'a list \<Rightarrow> 'a list" where
  \<comment> \<open>\<open>xs[i:j]\<close> for \<open>0 \<le> i \<le> j\<close>\<close>
  "py_slice i j xs = take (j - i) (drop i xs)"

definition be_uint64 :: "byte list \<Rightarrow> int" where
  \<comment> \<open>eight bytes read as one unsigned integer, the first byte the most significant\<close>
  "be_uint64 bs = (\<Sum>i<8. uint (bs ! i) * 256 ^ (7 - i))"

definition complex_of_uint64 :: "int \<Rightarrow> complex" where
  \<comment> \<open>real part \<open>(v / (2^64 - 1)) * 4.0 - 2.0\<close>, imaginary part
      \<open>((v & 0xFFFF) / (2^16 - 1)) * 4.0 - 2.0\<close>, in double precision\<close>
  "complex_of_uint64 v =
     Complex
       (of_rat (float_sub (float_mul (double_round (of_int v / (2 ^ 64 - 1))) 4) 2))
       (of_rat (float_sub (float_mul (double_round (of_int (v AND 0xFFFF) / (2 ^ 16 - 1))) 4) 2))"

definition in_square :: "complex \<Rightarrow> bool" where
  "in_square z = (- 2 \<le> Re z \<and> Re z \<le> 2 \<and> - 2 \<le> Im z \<and> Im z \<le> 2)"

definition is_byte :: "int \<Rightarrow> bool" where
  "is_byte b = (0 \<le> b \<and> b \<le> 255)"

definition bits_be :: "int \<Rightarrow> int list" where
  \<comment> \<open>the eight bits of a byte, most significant first\<close>
  "bits_be b = map (\<lambda>i. if bit b (7 - i) then 1 else 0) [0..<8]"

definition keystream_bits :: "int list \<Rightarrow> int list" where
  \<comment> \<open>the expansions of the bytes, one after the other\<close>
  "keystream_bits ks = concat (map bits_be ks)"

definition bit_changes :: "int list \<Rightarrow> nat" where
  \<comment> \<open>the number of positions whose bit differs from the bit before\<close>
  "bit_changes bits = length (filter (\<lambda>(a, b). a \<noteq> b) (zip bits (tl bits)))"

definition runs_bound :: "rat \<Rightarrow> nat \<Rightarrow> rat" where
  \<comment> \<open>\<open>c * N / 2\<close> in double precision, \<open>c\<close> a decimal literal\<close>
  "runs_bound c N = float_div (float_mul (double_round c) (float_of_int (int N))) 2"

fun keystream_bytes :: "pylibs \<Rightarrow> complex \<times> complex \<times> complex \<Rightarrow> complex \<Rightarrow> nat \<Rightarrow> int list" where
  \<comment> \<open>the bytes of \<open>n\<close> steps from state \<open>z\<close>, as long as no step raises\<close>
  "keystream_bytes libs prm z 0 = []"
| "keystream_bytes libs prm z (Suc n) =
     (case fractal_function libs z (fst prm) (fst (snd prm)) (snd (snd prm)) 100 of
        Inl e \<Rightarrow> []
      | Inr z' \<Rightarrow> byte_of z' # keystream_bytes libs prm z' n)"

text \<open>
  An instance of the parameters, for the closed examples; none of them depends on which
  instance is taken.
\<close>

definition sample_libs :: pylibs where
  "sample_libs =
     \<lparr>sha256 = (\<lambda>m. of_nat (length m)), sha512 = (\<lambda>m. of_nat (length m)),
      np_sin = (\<lambda>z. Some (sin z)), np_cos = (\<lambda>z. Some (cos z)), np_exp = (\<lambda>x. Some (exp x)),
      np_corrcoef = (\<lambda>xs ys. NaN)\<rparr>"

definition boundary_keystream :: "int list" where
  \<comment> \<open>25 bytes, 200 bits, 110 runs\<close>
  "boundary_keystream = replicate 13 85 @ [5] @ replicate 10 0 @ [255]"

definition still_world :: world where
  "still_world = \<lparr>clock = (\<lambda>k. 0), ticks = 0, stdout = []\<rparr>"

section \<open>Properties of the float model\<close>

lemma bit_length_bounds:
  "0 < n \<Longrightarrow> 2 ^ (bit_length n - 1) \<le> n \<and> n < 2 ^ bit_length n"
proof (induction n rule: bit_length.induct)
  case (1 n)
  show ?case
  proof (cases "n = 1")
    case True
    then show ?thesis
      by (simp add: bit_length.simps [of 1] bit_length.simps [of 0])
  next
    case False
    with "1.prems" have half: "0 < n div 2" by simp
    from "1.prems" have pos: "\<not> n \<le> 0" by simp
    have IH: "2 ^ (bit_length (n div 2) - 1) \<le> n div 2 \<and> n div 2 < 2 ^ bit_length (n div 2)"
      using "1.IH" [OF pos half] .
    have bl: "bit_length n = Suc (bit_length (n div 2))"
      using pos by (simp add: bit_length.simps [of n])
    have gt0: "0 < bit_length (n div 2)"
      using half by (simp add: bit_length.simps [of "n div 2"])
    then obtain k where k: "bit_length (n div 2) = Suc k"
      by (cases "bit_length (n div 2)") auto
    from IH k have "2 ^ k \<le> n div 2" "n div 2 < 2 ^ Suc k" by simp_all
    then have "2 * 2 ^ k \<le> n" "n < 2 * 2 ^ Suc k" by linarith+
    then show ?thesis by (simp add: bl k)
  qed
qed

lemma ilog2_bounds:
  assumes "0 < x"
  shows "2 powi (ilog2 x) \<le> x \<and> x < 2 powi (ilog2 x + 1)"
proof -
  obtain p q where pq: "quotient_of x = (p, q)" by (cases "quotient_of x")
  have q: "0 < q" using pq by (rule quotient_of_denom_pos)
  have x: "x = of_int p / of_int q" using pq by (rule quotient_of_div)
  have p: "0 < p" using assms q x by (simp add: zero_less_divide_iff)
  define bp where "bp = bit_length p"
  define bq where "bq = bit_length q"
  have bpos: "0 < bp" "0 < bq"
    using p q by (simp_all add: bp_def bq_def bit_length.simps [of p] bit_length.simps [of q])
  have P: "2 ^ (bp - 1) \<le> p" "p < 2 ^ bp"
    using bit_length_bounds [OF p] by (simp_all add: bp_def)
  have Q: "2 ^ (bq - 1) \<le> q" "q < 2 ^ bq"
    using bit_length_bounds [OF q] by (simp_all add: bq_def)
  have Pr: "(2::rat) ^ (bp - 1) \<le> of_int p" "(of_int p :: rat) < 2 ^ bp"
    using P by (metis of_int_le_iff of_int_numeral of_int_power, metis of_int_less_iff of_int_numeral of_int_power)
  have Qr: "(2::rat) ^ (bq - 1) \<le> of_int q" "(of_int q :: rat) < 2 ^ bq"
    using Q by (metis of_int_le_iff of_int_numeral of_int_power, metis of_int_less_iff of_int_numeral of_int_power)
  have qr: "(0::rat) < of_int q" using q by simp
  have pr: "(0::rat) < of_int p" using p by simp
  define d where "d = int bp - int bq"
  have up: "x < 2 powi (d + 1)"
  proof -
    have "of_int p * (2::rat) ^ (bq - 1) \<le> of_int p * of_int q"
      using Qr(1) pr by (intro mult_left_mono) simp_all
    also have "\<dots> < 2 ^ bp * of_int q"
      using Pr(2) qr by (intro mult_strict_right_mono) simp_all
    finally have "of_int p * (2::rat) ^ (bq - 1) < 2 ^ bp * of_int q" .
    then have "x < 2 ^ bp / 2 ^ (bq - 1)"
      using qr by (simp add: x field_simps)
    also have "\<dots> = 2 powi (int bp - int (bq - 1))"
      by (simp add: power_int_diff)
    also have "int bp - int (bq - 1) = d + 1"
      using bpos by (simp add: d_def)
    finally show ?thesis .
  qed
  have lo: "2 powi (d - 1) \<le> x"
  proof -
    have "(2::rat) ^ (bp - 1) * of_int q \<le> of_int p * of_int q"
      using Pr(1) qr by (intro mult_right_mono) simp_all
    also have "\<dots> \<le> of_int p * 2 ^ bq"
      using Qr(2) pr by (intro mult_left_mono) simp_all
    finally have "(2::rat) ^ (bp - 1) * of_int q \<le> of_int p * 2 ^ bq" .
    then have "2 ^ (bp - 1) / 2 ^ bq \<le> x"
      using qr by (simp add: x field_simps)
    moreover have "(2::rat) ^ (bp - 1) / 2 ^ bq = 2 powi (int (bp - 1) - int bq)"
      by (simp add: power_int_diff)
    moreover have "int (bp - 1) - int bq = d - 1"
      using bpos by (simp add: d_def)
    ultimately show ?thesis by simp
  qed
  have il: "ilog2 x = (if 2 powi d \<le> x then d else d - 1)"
    by (simp add: ilog2_def pq d_def bp_def bq_def)
  show ?thesis
  proof (cases "2 powi d \<le> x")
    case True
    then show ?thesis using up by (simp add: il)
  next
    case False
    then show ?thesis using lo by (simp add: il)
  qed
qed


lemma round_half_even_le:
  assumes "r \<le> of_int k"
  shows "round_half_even r \<le> k"
proof -
  have f: "\<lfloor>r\<rfloor> \<le> k" using assms by (simp add: floor_le_iff)
  have "\<lfloor>r\<rfloor> + 1 \<le> k" if "0 < r - of_int \<lfloor>r\<rfloor>"
  proof -
    have "\<lfloor>r\<rfloor> \<noteq> k"
    proof
      assume "\<lfloor>r\<rfloor> = k"
      with that assms show False by simp
    qed
    with f show ?thesis by simp
  qed
  then show ?thesis
    using f by (auto simp: round_half_even_def Let_def)
qed

lemma round_half_even_ge:
  assumes "of_int k \<le> r"
  shows "k \<le> round_half_even r"
proof -
  have "k \<le> \<lfloor>r\<rfloor>" using assms by (simp add: le_floor_iff)
  then show ?thesis by (auto simp: round_half_even_def Let_def)
qed

lemma double_round_nonneg:
  assumes "0 \<le> x"
  shows "0 \<le> double_round x"
proof (cases "x = 0")
  case True
  then show ?thesis by (simp add: double_round_def)
next
  case False
  define u :: rat where "u = 2 powi (max (ilog2 \<bar>x\<bar>) (- 1022) - 52)"
  have u: "0 < u" by (simp add: u_def)
  have "of_int 0 \<le> x / u" using assms u by simp
  then have "0 \<le> round_half_even (x / u)" by (rule round_half_even_ge)
  then show ?thesis
    using False u by (simp add: double_round_def Let_def u_def [symmetric])
qed

lemma double_round_abs_le:
  assumes "\<bar>x\<bar> \<le> 2 powi k" and "- 1074 \<le> k"
  shows "\<bar>double_round x\<bar> \<le> 2 powi k"
proof (cases "x = 0")
  case True
  then show ?thesis by (simp add: double_round_def)
next
  case False
  define e where "e = max (ilog2 \<bar>x\<bar>) (- 1022)"
  define u :: rat where "u = 2 powi (e - 52)"
  have u: "0 < u" by (simp add: u_def)
  have ax: "0 < \<bar>x\<bar>" using False by simp
  have "(2::rat) powi (ilog2 \<bar>x\<bar>) \<le> 2 powi k"
    using ilog2_bounds [OF ax] assms(1) by linarith
  then have "ilog2 \<bar>x\<bar> \<le> k"
    using power_int_strict_increasing [of k "ilog2 \<bar>x\<bar>" "2::rat"] by fastforce
  then have m: "0 \<le> k - e + 52" using assms(2) by (simp add: e_def)
  define a where "a = k - e + 52"
  define M :: int where "M = 2 ^ nat a"
  have a: "0 \<le> a" and ak: "a + (e - 52) = k" using m by (simp_all add: a_def)
  have Mu: "of_int M * u = 2 powi k"
  proof -
    have "(of_int M :: rat) = 2 powi a"
      using a by (simp add: M_def power_int_nonneg_exp)
    then have "of_int M * u = 2 powi a * 2 powi (e - 52)"
      by (simp only: u_def)
    also have "\<dots> = 2 powi (a + (e - 52))"
      by (rule power_int_add [symmetric]) simp
    finally show ?thesis by (simp only: ak)
  qed
  have "\<bar>x\<bar> / u \<le> of_int M"
    using assms(1) u Mu by (simp add: field_simps)
  then have "\<bar>x / u\<bar> \<le> of_int M" using u by simp
  then have "x / u \<le> of_int M \<and> - of_int M \<le> x / u"
    unfolding abs_le_iff by linarith
  then have up: "x / u \<le> of_int M" and lo: "of_int (- M) \<le> x / u"
    by simp_all
  have "round_half_even (x / u) \<le> M" "- M \<le> round_half_even (x / u)"
    using round_half_even_le [OF up] round_half_even_ge [OF lo] by simp_all
  then have "\<bar>round_half_even (x / u)\<bar> \<le> M" by simp
  then have "\<bar>of_int (round_half_even (x / u)) :: rat\<bar> \<le> of_int M"
    by (metis of_int_abs of_int_le_iff)
  then have "\<bar>of_int (round_half_even (x / u)) * u\<bar> \<le> of_int M * u"
    using u by (simp add: abs_mult)
  then show ?thesis
    using False by (simp add: double_round_def Let_def e_def [symmetric] u_def [symmetric] Mu)
qed

section \<open>Properties of the generator\<close>

lemma clamp_mag_returns:
  "0 \<le> max_mag \<Longrightarrow> \<exists>z'. clamp_mag z max_mag = Inr z'"
  by (auto simp: clamp_mag_def)

lemma fractal_terms_raises:
  "fractal_terms libs z alpha beta gamma = Inl e \<Longrightarrow> e = FloatingPointError"
  by (auto simp: fractal_terms_def Let_def split: option.splits)

lemma except_fp_returns:
  "\<exists>r. except_fp (fractal_terms libs z alpha beta gamma) = Inr r"
proof (cases "fractal_terms libs z alpha beta gamma")
  case (Inl e)
  then show ?thesis
    using fractal_terms_raises [OF Inl] by (simp add: except_fp_def)
next
  case (Inr r)
  then show ?thesis by (simp add: except_fp_def)
qed

lemma fractal_function_returns:
  assumes "0 \<le> max_mag"
  shows "\<exists>z'. fractal_function libs z alpha beta gamma max_mag = Inr z'"
proof -
  obtain z1 where z1: "clamp_mag z max_mag = Inr z1"
    using clamp_mag_returns [OF assms] by blast
  obtain r where r: "except_fp (fractal_terms libs z1 alpha beta gamma) = Inr r"
    using except_fp_returns by blast
  obtain z' where z': "clamp_mag r max_mag = Inr z'"
    using clamp_mag_returns [OF assms] by blast
  have "fractal_function libs z alpha beta gamma max_mag = Inr z'"
    by (simp add: fractal_function_def z1 r z')
  then show ?thesis ..
qed

lemma step_returns: "\<exists>z'. fractal_function libs z alpha beta gamma 100 = Inr z'"
  by (rule fractal_function_returns) simp

lemma keystream_loop_bytes:
  "fst (keystream_loop libs prm t0 len idx z ks w) = Inr (ks @ keystream_bytes libs prm z (length idx))"
proof (induction idx arbitrary: z ks w)
  case Nil
  then show ?case by simp
next
  case (Cons i rest)
  obtain alpha beta gamma where prm: "prm = (alpha, beta, gamma)" by (cases prm) auto
  obtain z' where z': "fractal_function libs z alpha beta gamma 100 = Inr z'"
    using step_returns by blast
  show ?case
    by (simp add: prm z' Let_def split_beta Cons.IH [unfolded prm])
qed





lemma generate_keystream_bytes:
  "fst (generate_keystream libs w password len seed) =
     Inr (keystream_bytes libs (generate_parameters libs password) seed (nat len))"
  by (simp add: generate_keystream_def Let_def split_beta keystream_loop_bytes)

lemma generate_keystream_nonpos:
  "len \<le> 0 \<Longrightarrow> fst (generate_keystream libs w password len seed) = Inr []"
  by (simp add: generate_keystream_bytes)

section \<open>Properties of the parameter derivation\<close>

lemma length_digest: "length (digest (w::'a::len word)) = LENGTH('a) div 8"
  by (simp add: digest_def)

lemma from_bytes_big_snoc:
  "from_bytes_big (bs @ [b]) = from_bytes_big bs * 256 + uint b"
  by (simp add: from_bytes_big_def)

lemma from_bytes_big_bounds:
  "0 \<le> from_bytes_big bs \<and> from_bytes_big bs < 256 ^ length bs"
proof (induction bs rule: rev_induct)
  case Nil
  then show ?case by (simp add: from_bytes_big_def)
next
  case (snoc b bs)
  have "uint b < 256" using uint_bounded [of b] by simp
  moreover have "0 \<le> uint b" by simp
  ultimately show ?case
    using snoc by (simp add: from_bytes_big_snoc)
qed

lemma list8:
  assumes "length bs = 8"
  obtains a b c d e f g h where "bs = [a, b, c, d, e, f, g, h]"
proof -
  from assms have "length bs = Suc (Suc (Suc (Suc (Suc (Suc (Suc (Suc 0)))))))" by simp
  then show ?thesis
    using that by (auto simp: length_Suc_conv)
qed

lemma from_bytes_big_eq_be:
  assumes "length bs = 8"
  shows "from_bytes_big bs = be_uint64 bs"
proof -
  obtain a b c d e f g h where bs: "bs = [a, b, c, d, e, f, g, h]"
    using assms by (rule list8)
  have eight: "{..<8::nat} = {0, 1, 2, 3, 4, 5, 6, 7}" by auto
  show ?thesis
    by (simp add: bs from_bytes_big_def be_uint64_def eight)
qed

lemma bytes_to_complex_eq:
  "bytes_to_complex bs = complex_of_uint64 (from_bytes_big bs)"
  by (simp add: bytes_to_complex_def complex_of_uint64_def Let_def)

lemma unit_interval_scaled:
  assumes "0 \<le> q" and "q \<le> 1"
  shows "\<bar>float_sub (float_mul (double_round q) 4) 2\<bar> \<le> 2"
proof -
  have n0: "0 \<le> double_round q" using assms(1) by (rule double_round_nonneg)
  have "\<bar>double_round q\<bar> \<le> 2 powi 0"
    using assms by (intro double_round_abs_le) simp_all
  then have n1: "double_round q \<le> 1" by simp
  have m0: "0 \<le> float_mul (double_round q) 4"
    unfolding float_mul_def using n0 by (intro double_round_nonneg) simp
  have "\<bar>float_mul (double_round q) 4\<bar> \<le> 2 powi 2"
    unfolding float_mul_def using n0 n1 by (intro double_round_abs_le) simp_all
  then have m4: "float_mul (double_round q) 4 \<le> 4" by simp
  have "\<bar>float_sub (float_mul (double_round q) 4) 2\<bar> \<le> 2 powi 1"
    unfolding float_sub_def using m0 m4 by (intro double_round_abs_le) (simp_all add: abs_le_iff)
  then show ?thesis by simp
qed

lemma in_square_complex_of_uint64:
  assumes "0 \<le> v" and "v < 2 ^ 64"
  shows "in_square (complex_of_uint64 v)"
proof -
  have q: "0 \<le> (of_int v :: rat) / (2 ^ 64 - 1)" "(of_int v :: rat) / (2 ^ 64 - 1) \<le> 1"
  proof -
    have "(of_int v :: rat) \<le> of_int (2 ^ 64 - 1)" using assms(2) by (subst of_int_le_iff) simp
    then show "(of_int v :: rat) / (2 ^ 64 - 1) \<le> 1" by simp
    show "0 \<le> (of_int v :: rat) / (2 ^ 64 - 1)" using assms(1) by simp
  qed
  have w: "0 \<le> v AND 0xFFFF" "v AND 0xFFFF \<le> 0xFFFF"
    by simp_all
  have p: "0 \<le> (of_int (v AND 0xFFFF) :: rat) / (2 ^ 16 - 1)" "(of_int (v AND 0xFFFF) :: rat) / (2 ^ 16 - 1) \<le> 1"
  proof -
    have "(of_int (v AND 0xFFFF) :: rat) \<le> of_int 0xFFFF" using w(2) by (subst of_int_le_iff)
    then show "(of_int (v AND 0xFFFF) :: rat) / (2 ^ 16 - 1) \<le> 1" by simp
    show "0 \<le> (of_int (v AND 0xFFFF) :: rat) / (2 ^ 16 - 1)" using w(1) by simp
  qed
  have bound: "- 2 \<le> (of_rat r :: real) \<and> (of_rat r :: real) \<le> 2" if "\<bar>r\<bar> \<le> 2" for r :: rat
  proof -
    from that have "- 2 \<le> r" "r \<le> 2" by (simp_all add: abs_le_iff) 
    then have "(of_rat (- 2) :: real) \<le> of_rat r" "(of_rat r :: real) \<le> of_rat 2"
      unfolding of_rat_less_eq by simp_all
    then show ?thesis by simp
  qed
  show ?thesis
    using bound [OF unit_interval_scaled [OF q]] bound [OF unit_interval_scaled [OF p]]
    by (simp add: in_square_def complex_of_uint64_def)
qed

section \<open>Properties of the bit expansion and of the runs count\<close>

lemma zfill_snoc: "zfill (Suc k) (ds @ [x]) = zfill k ds @ [x]"
  by (simp add: zfill_def)

lemma small_bits: "0 \<le> n \<Longrightarrow> n < 2 \<Longrightarrow> bit (n::int) (Suc j) = False"
proof -
  assume "0 \<le> n" "n < 2"
  then have "n = 0 \<or> n = 1" by auto
  then show ?thesis by (auto simp: bit_Suc)
qed

lemma zfill_bin_digits:
  "0 \<le> n \<Longrightarrow> n < 2 ^ Suc k \<Longrightarrow>
   zfill (Suc k) (bin_digits n) = map (\<lambda>i. if bit n (k - i) then 1 else 0) [0..<Suc k]"
proof (induction k arbitrary: n)
  case 0
  then have "n = 0 \<or> n = 1" by auto
  then show ?case
    by (auto simp: bin_digits.simps [of 0] bin_digits.simps [of 1] zfill_def)
next
  case (Suc k)
  show ?case
  proof (cases "n < 2")
    case True
    with Suc.prems have n: "n = 0 \<or> n = 1" by auto
    have high: "map (\<lambda>i. if bit n (Suc k - i) then 1 else 0) [0..<Suc k] = replicate (Suc k) (0::int)"
    proof (rule nth_equalityI)
      show "length (map (\<lambda>i. if bit n (Suc k - i) then 1 else 0) [0..<Suc k]) = length (replicate (Suc k) (0::int))"
        by simp
    next
      fix i
      assume "i < length (map (\<lambda>i. if bit n (Suc k - i) then 1 else (0::int)) [0..<Suc k])"
      then have i: "i < Suc k" by simp
      then obtain j where "Suc k - i = Suc j" by (cases "Suc k - i") auto
      then have "\<not> bit n (Suc k - i)"
        using small_bits [of n j] Suc.prems(1) True by simp
      then show "map (\<lambda>i. if bit n (Suc k - i) then 1 else 0) [0..<Suc k] ! i = replicate (Suc k) (0::int) ! i"
        using i by (simp del: upt_Suc replicate.simps)
    qed
    have "map (\<lambda>i. if bit n (Suc k - i) then 1 else 0) [0..<Suc (Suc k)] =
          map (\<lambda>i. if bit n (Suc k - i) then 1 else 0) [0..<Suc k] @ [if bit n 0 then 1 else (0::int)]"
      by simp
    also have "\<dots> = replicate (Suc k) 0 @ [n]"
      unfolding high using n by auto
    finally show ?thesis
      using True by (simp add: bin_digits.simps [of n] zfill_def del: upt_Suc replicate_Suc)
  next
    case False
    then have bd: "bin_digits n = bin_digits (n div 2) @ [n mod 2]"
      by (simp add: bin_digits.simps [of n])
    have half: "0 \<le> n div 2" "n div 2 < 2 ^ Suc k"
      using Suc.prems by simp_all
    have IH: "zfill (Suc k) (bin_digits (n div 2)) =
              map (\<lambda>i. if bit (n div 2) (k - i) then 1 else 0) [0..<Suc k]"
      using Suc.IH [OF half] .
    have shift: "map (\<lambda>i. if bit n (Suc k - i) then 1 else (0::int)) [0..<Suc k] =
                 map (\<lambda>i. if bit (n div 2) (k - i) then 1 else 0) [0..<Suc k]"
    proof (rule map_cong [OF refl])
      fix i
      assume "i \<in> set [0..<Suc k]"
      then have "Suc k - i = Suc (k - i)" by auto
      then show "(if bit n (Suc k - i) then 1 else (0::int)) = (if bit (n div 2) (k - i) then 1 else 0)"
        by (simp add: bit_Suc)
    qed
    have last: "(if bit n 0 then 1 else 0) = n mod 2"
      by (auto simp: bit_0 odd_iff_mod_2_eq_one)
    have "map (\<lambda>i. if bit n (Suc k - i) then 1 else 0) [0..<Suc (Suc k)] =
          map (\<lambda>i. if bit n (Suc k - i) then 1 else 0) [0..<Suc k] @ [if bit n 0 then 1 else (0::int)]"
      by simp
    also have "\<dots> = zfill (Suc k) (bin_digits (n div 2)) @ [n mod 2]"
      unfolding shift IH last ..
    finally show ?thesis
      by (simp only: bd zfill_snoc)
  qed
qed

lemma byte_bits_be: "is_byte b \<Longrightarrow> byte_bits b = Inr (bits_be b)"
  using zfill_bin_digits [of b 7]
  by (simp add: is_byte_def byte_bits_def bits_be_def del: upt_Suc)

lemma length_zfill: "width \<le> length (zfill width ds)"
  by (simp add: zfill_def)

lemma expand_bits_ok:
  "list_all (\<lambda>b. 0 \<le> b) ks \<Longrightarrow>
   expand_bits acc ks = Inr (acc @ concat (map (\<lambda>b. zfill 8 (bin_digits b)) ks))"
  by (induction ks arbitrary: acc) (simp_all add: byte_bits_def)

lemma expand_bits_bytes:
  "list_all is_byte ks \<Longrightarrow> expand_bits acc ks = Inr (acc @ keystream_bits ks)"
  by (induction ks arbitrary: acc) (simp_all add: byte_bits_be keystream_bits_def)

lemma length_bits_be: "length (bits_be b) = 8"
  by (simp add: bits_be_def)

lemma length_keystream_bits: "length (keystream_bits ks) = 8 * length ks"
  by (induction ks) (simp_all add: length_bits_be keystream_bits_def)

lemma length_concat_zfill:
  "8 * length ks \<le> length (concat (map (\<lambda>b. zfill 8 (bin_digits b)) ks))"
proof (induction ks)
  case Nil
  then show ?case by simp
next
  case (Cons k ks)
  then show ?case
    using length_zfill [of 8 "bin_digits k"] by simp
qed

lemma fold_count:
  "fold (\<lambda>i runs. if P i then runs + 1 else runs) idx (r::int) = r + int (length (filter P idx))"
  by (induction idx arbitrary: r) simp_all

lemma zip_tl_nth:
  "zip bits (tl bits) = map (\<lambda>i. (bits ! (i - 1), bits ! i)) [1..<length bits]"
proof (rule nth_equalityI)
  show "length (zip bits (tl bits)) = length (map (\<lambda>i. (bits ! (i - 1), bits ! i)) [1..<length bits])"
    by simp
next
  fix i
  assume "i < length (zip bits (tl bits))"
  then have i: "Suc i < length bits" by simp
  then have "[1..<length bits] ! i = Suc i"
    using nth_upt [of 1 i "length bits"] by simp
  then show "zip bits (tl bits) ! i = map (\<lambda>i. (bits ! (i - 1), bits ! i)) [1..<length bits] ! i"
    using i by (simp add: nth_tl)
qed

lemma count_runs_changes: "count_runs bits = 1 + int (bit_changes bits)"
proof -
  have "bit_changes bits = length (filter (\<lambda>i. bits ! i \<noteq> bits ! (i - 1)) [1..<length bits])"
    unfolding bit_changes_def zip_tl_nth filter_map length_map
    by (rule arg_cong [where f = length], rule filter_cong) auto
  then show ?thesis
    by (simp add: count_runs_def fold_count)
qed

section \<open>Properties of the randomness tests\<close>

lemma nist_on_bits:
  assumes "expand_bits [] keystream = Inr bits" and "bits \<noteq> []"
  shows "\<exists>r. nist_randomness_tests libs keystream = Inr r \<and>
           runs_test r =
             (runs_bound (9 / 10) (length bits) < of_int (count_runs bits) \<and>
              of_int (count_runs bits) < runs_bound (11 / 10) (length bits))"
  using assms
  by (simp add: nist_randomness_tests_def int_truediv_def Let_def runs_bound_def)

lemma nist_empty: "nist_randomness_tests libs [] = Inl ZeroDivisionError"
  by (simp add: nist_randomness_tests_def int_truediv_def)

lemma expand_bits_nonempty:
  assumes "keystream \<noteq> []" and "list_all (\<lambda>b. 0 \<le> b) keystream"
  shows "\<exists>bits. expand_bits [] keystream = Inr bits \<and> bits \<noteq> []"
proof -
  have "0 < 8 * length keystream" using assms(1) by simp
  also have "\<dots> \<le> length (concat (map (\<lambda>b. zfill 8 (bin_digits b)) keystream))"
    by (rule length_concat_zfill)
  finally have "concat (map (\<lambda>b. zfill 8 (bin_digits b)) keystream) \<noteq> []" by auto
  then show ?thesis
    using expand_bits_ok [OF assms(2), of "[]"] by simp
qed

lemma double_round_002: "0 < double_round (1 / 50)"
  by code_simp

text \<open>
  Rounding is visible in the bounds of the runs test: \<open>1.1 * 200 / 2\<close> is not \<open>110\<close> but
  the next double, so that 110 runs in 200 bits pass the test, as they do in the program.
\<close>

lemma runs_bound_200: "runs_bound (11 / 10) 200 = 110 + 1 / 2 ^ 46"
  by code_simp

lemma runs_bound_200_low: "runs_bound (9 / 10) 200 = 90"
  by code_simp

lemma boundary_changes: "bit_changes (keystream_bits boundary_keystream) = 109"
  by code_simp

lemma boundary_bytes: "list_all is_byte boundary_keystream \<and> length boundary_keystream = 25"
  by code_simp

section \<open>The claims\<close>

text \<open>
  C1. For every password, length and seed, two runs of \<open>generate_keystream\<close> on the
  same arguments return the same bytes: the result does not depend on the world it runs
  in, that is on what the clock reads and on what has been printed.
\<close>

theorem generate_keystream_deterministic:
  "fst (generate_keystream libs w1 password len seed) =
   fst (generate_keystream libs w2 password len seed)"
  by (simp add: generate_keystream_bytes)

theorem generate_keystream_deterministic_witness:
  "fst (generate_keystream sample_libs still_world ''test'' 16 (Complex 0.5 0.3)) =
   fst (generate_keystream sample_libs (still_world\<lparr>clock := (\<lambda>k. real k), ticks := 7\<rparr>)
          ''test'' 16 (Complex 0.5 0.3))"
  by (rule generate_keystream_deterministic)



text \<open>
  C4. \<open>generate_parameters\<close> returns \<open>bytes_to_complex\<close> of the windows \<open>[0:8]\<close> of the
  SHA-256 digest, \<open>[16:24]\<close> of the SHA-512 digest and \<open>[24:32]\<close> of the SHA-256 digest,
  where \<open>bytes_to_complex\<close> reads its eight bytes as a big-endian unsigned 64-bit integer
  \<open>v\<close> and returns the complex number with real part \<open>(v / (2^64 - 1)) * 4.0 - 2.0\<close> and
  imaginary part \<open>((v & 0xFFFF) / (2^16 - 1)) * 4.0 - 2.0\<close>, both evaluated in double
  precision; each of the three numbers lies in the square \<open>[-2,2] \<times> [-2,2]\<close>.
\<close>

theorem generate_parameters_windows:
  "generate_parameters libs password =
     (complex_of_uint64 (be_uint64 (py_slice 0 8 (digest (sha256 libs (encode password))))),
      complex_of_uint64 (be_uint64 (py_slice 16 24 (digest (sha512 libs (encode password))))),
      complex_of_uint64 (be_uint64 (py_slice 24 32 (digest (sha256 libs (encode password))))))
   \<and> in_square (fst (generate_parameters libs password))
   \<and> in_square (fst (snd (generate_parameters libs password)))
   \<and> in_square (snd (snd (generate_parameters libs password)))"
proof -
  define h256 where "h256 = digest (sha256 libs (encode password))"
  define h512 where "h512 = digest (sha512 libs (encode password))"
  have l256: "length h256 = 32" and l512: "length h512 = 64"
    by (simp_all add: h256_def h512_def length_digest)
  have a: "length (take 8 h256) = 8" and b: "length (take 8 (drop 16 h512)) = 8"
    and c: "length (drop 24 h256) = 8"
    by (simp_all add: l256 l512)
  have sl: "py_slice 0 8 h256 = take 8 h256" "py_slice 16 24 h512 = take 8 (drop 16 h512)"
    "py_slice 24 32 h256 = drop 24 h256"
    by (simp_all add: py_slice_def l256)
  have eq: "generate_parameters libs password =
     (complex_of_uint64 (be_uint64 (py_slice 0 8 h256)),
      complex_of_uint64 (be_uint64 (py_slice 16 24 h512)),
      complex_of_uint64 (be_uint64 (py_slice 24 32 h256)))"
    unfolding sl
    by (simp add: generate_parameters_def Let_def bytes_to_complex_eq
        from_bytes_big_eq_be [OF a] from_bytes_big_eq_be [OF b] from_bytes_big_eq_be [OF c]
        h256_def [symmetric] h512_def [symmetric])
  have rng: "in_square (complex_of_uint64 (be_uint64 bs))" if "length bs = 8" for bs
  proof -
    have "0 \<le> from_bytes_big bs" "from_bytes_big bs < 2 ^ 64"
      using from_bytes_big_bounds [of bs] that by simp_all
    then show ?thesis
      using in_square_complex_of_uint64 from_bytes_big_eq_be [OF that] by simp
  qed
  show ?thesis
    unfolding eq h256_def [symmetric] h512_def [symmetric]
    using rng [OF a] rng [OF b] rng [OF c] by (simp add: eq sl)
qed

theorem generate_parameters_windows_witness:
  "in_square (fst (generate_parameters sample_libs ''test''))
   \<and> fst (generate_parameters sample_libs ''test'') =
       complex_of_uint64 (be_uint64 (py_slice 0 8 (digest (sha256 sample_libs (encode ''test'')))))"
  using generate_parameters_windows [of sample_libs "''test''"] by (metis fst_conv)



text \<open>
  C6. The claim is that a negative length makes \<open>generate_keystream\<close> signal an
  invalid-argument failure. The source does not check its arguments: \<open>range(length)\<close> is
  empty for a negative length. As amended: for every password, seed and length \<open>n < 0\<close>,
  \<open>generate_keystream\<close> returns the empty sequence and signals no failure.
\<close>

theorem negative_length_returns_empty:
  "n < 0 \<Longrightarrow> fst (generate_keystream libs w password n seed) = Inr []"
  by (rule generate_keystream_nonpos) simp

theorem negative_length_returns_empty_witness:
  "fst (generate_keystream sample_libs still_world ''test'' (- 1) (Complex 0.5 0.3)) = Inr []"
  using negative_length_returns_empty [of "- 1" sample_libs still_world "''test''" "Complex 0.5 0.3"]
  by simp

theorem negative_length_no_failure:
  "\<not> (\<exists>e. fst (generate_keystream sample_libs still_world ''test'' (- 1) (Complex 0.5 0.3)) = Inl e)"
  by (simp add: generate_keystream_nonpos)

text \<open>
  C7. For every non-empty keystream of bytes, the bits tested are the big-endian 8-bit
  expansions of the bytes one after the other, \<open>N = 8 * len(keystream)\<close> of them; \<open>runs\<close> is
  \<open>1\<close> plus the number of positions whose bit differs from the one before; and the runs
  test passes if and only if \<open>runs\<close> lies strictly between \<open>0.9 * N / 2\<close> and
  \<open>1.1 * N / 2\<close>, the two bounds evaluated in double precision as the source does.
\<close>

theorem runs_test_spec:
  assumes "keystream \<noteq> []" and "list_all is_byte keystream"
  shows "\<exists>r. nist_randomness_tests libs keystream = Inr r \<and>
           expand_bits [] keystream = Inr (keystream_bits keystream) \<and>
           length (keystream_bits keystream) = 8 * length keystream \<and>
           count_runs (keystream_bits keystream) = 1 + int (bit_changes (keystream_bits keystream)) \<and>
           runs_test r =
             (runs_bound (9 / 10) (8 * length keystream)
                < of_int (1 + int (bit_changes (keystream_bits keystream))) \<and>
              of_int (1 + int (bit_changes (keystream_bits keystream)))
                < runs_bound (11 / 10) (8 * length keystream))"
proof -
  have e: "expand_bits [] keystream = Inr (keystream_bits keystream)"
    using expand_bits_bytes [OF assms(2), of "[]"] by simp
  have l: "length (keystream_bits keystream) = 8 * length keystream"
    by (rule length_keystream_bits)
  have ne: "keystream_bits keystream \<noteq> []"
    using assms(1) l by auto
  show ?thesis
    using nist_on_bits [OF e ne, of libs] e l
    by (simp add: count_runs_changes)
qed

theorem runs_test_spec_witness:
  "\<exists>r. nist_randomness_tests sample_libs boundary_keystream = Inr r \<and>
       1 + int (bit_changes (keystream_bits boundary_keystream)) = 110 \<and>
       runs_test r"
proof -
  have ne: "boundary_keystream \<noteq> []" by (simp add: boundary_keystream_def)
  have bs: "list_all is_byte boundary_keystream" and len: "length boundary_keystream = 25"
    using boundary_bytes by simp_all
  show ?thesis
    using runs_test_spec [OF ne bs, of sample_libs]
    by (auto simp: len boundary_changes runs_bound_200 runs_bound_200_low)
qed

text \<open>
  C8. The claim is that for a bit sequence of length at most \<open>1\<close>, so for the empty
  keystream, the correlation is \<open>0\<close> and the autocorrelation test passes. The guard of
  the source gives \<open>0\<close> there, and \<open>abs(0) < 0.02\<close> holds, but the guard is never
  reached: on the empty keystream \<open>nist_randomness_tests\<close> raises \<open>ZeroDivisionError\<close> in
  the frequency test and returns no report.
\<close>

theorem autocorrelation_unreached_on_empty:
  "expand_bits [] [] = Inr [] \<and>
   abs_below (if length ([] :: int list) > 1 then np_corrcoef libs (butlast []) (tl []) else Finite 0)
     (double_round (2 / 100)) \<and>
   nist_randomness_tests libs [] = Inl ZeroDivisionError"
  by (simp add: nist_empty abs_below_def double_round_002)



text \<open>
  C10. On the empty keystream \<open>nist_randomness_tests\<close> raises \<open>ZeroDivisionError\<close>: the
  frequency test divides the number of one-bits by \<open>len(bits) = 0\<close>. For every non-empty
  keystream (of integers that are not negative) the bit sequence is not empty, the
  division is defined and a report with the three entries is returned.
\<close>

theorem frequency_division_by_zero:
  "nist_randomness_tests libs [] = Inl ZeroDivisionError \<and>
   (keystream \<noteq> [] \<longrightarrow> list_all (\<lambda>b. 0 \<le> b) keystream \<longrightarrow>
      (\<exists>bits r. expand_bits [] keystream = Inr bits \<and> bits \<noteq> [] \<and>
         nist_randomness_tests libs keystream = Inr r))"
proof (intro conjI impI)
  show "nist_randomness_tests libs [] = Inl ZeroDivisionError" by (rule nist_empty)
next
  assume "keystream \<noteq> []" and "list_all (\<lambda>b. 0 \<le> b) keystream"
  then obtain bits where b: "expand_bits [] keystream = Inr bits" "bits \<noteq> []"
    using expand_bits_nonempty by blast
  then show "\<exists>bits r. expand_bits [] keystream = Inr bits \<and> bits \<noteq> [] \<and>
         nist_randomness_tests libs keystream = Inr r"
    using nist_on_bits [OF b, of libs] by blast
qed

theorem frequency_division_by_zero_witness:
  "nist_randomness_tests sample_libs [] = Inl ZeroDivisionError \<and>
   (\<exists>bits r. expand_bits [] [85, 170] = Inr bits \<and> bits \<noteq> [] \<and>
         nist_randomness_tests sample_libs [85, 170] = Inr r)"
  using frequency_division_by_zero [of sample_libs "[85, 170]"] by simp

end
